theory Spec2Isabelle
  imports Main "HOL-Library.Word"
begin

section \<open>The monitor of simulapc.cpp: a circular queue that resizes itself\<close>

text \<open>
  The class \<open>CircularQueueMonitor\<close> owns a \<open>vector<int>\<close> used as a circular buffer, the
  four \<open>size_t\<close> fields \<open>capacity\<close>, \<open>front\<close>, \<open>rear\<close>, \<open>count\<close>, the public flag
  \<open>producers_done\<close>, a reference to the log stream and two condition variables.

  \<^item> Items are C++ \<open>int\<close>s; they are only stored and copied, never computed with.
  \<^item> The \<open>size_t\<close> fields are natural numbers. Every capacity is the size of a
    \<open>vector<int>\<close> that was allocated, hence at most \<open>vector::max_size()\<close>, which is
    below \<open>2^62\<close>; the largest values the code computes from it are \<open>capacity * 2\<close> and
    \<open>front + i < 2 * capacity\<close>, so no 64-bit operation of the class wraps around.
    Allocation itself is taken to succeed.
  \<^item> The log stream is the list of the lines written to it so far; each
    \<open>log_file << ... << endl\<close> statement appends one line.
  \<^item> The condition variables are observed through the notifications sent to them,
    recorded in order in the field \<open>notified\<close>.
  \<^item> Every public method locks the mutex for its whole body, and a method waits only
    before it has changed anything. A call is therefore one atomic step from the state
    in which its wait condition holds; in any other state the call suspends, which the
    model returns as the value \<open>Suspends\<close>.
\<close>

type_synonym item = "32 word"

datatype notification = Notify_one_not_full | Notify_one_not_empty | Notify_all_not_empty

record monitor =
  buffer :: "item list"
  capacity :: nat
  front :: nat
  rear :: nat
  count :: nat
  producers_done :: bool
  log_file :: "string list"
  notified :: "notification list"

datatype 'a call = Suspends | Returns 'a

subsection \<open>The log line\<close>

text \<open>\<open>operator<<\<close> on a \<open>size_t\<close> prints it in decimal, without leading zeros.\<close>

definition digit_char :: "nat \<Rightarrow> char" where
  "digit_char d = char_of (48 + d)"

function decimal :: "nat \<Rightarrow> string" where
  "decimal n = (if n < 10 then [digit_char n] else decimal (n div 10) @ [digit_char (n mod 10)])"
  by pat_completeness auto
termination
  by (relation "measure id") auto

declare decimal.simps [simp del]

text \<open>
  The text of line 43 of simulapc.cpp, as the bytes of the source file (UTF-8: the
  accented o is \<open>0xC3 0xB3\<close> and the n with tilde is \<open>0xC3 0xB1\<close>).
\<close>

definition resize_message :: string where
  "resize_message =
     ''La cola cambi'' @ [char_of (0xC3 :: nat), char_of (0xB3 :: nat)] @
     '' de tama'' @ [char_of (0xC3 :: nat), char_of (0xB1 :: nat)] @ ''o a ''"

definition resize_line :: "nat \<Rightarrow> string" where
  "resize_line c = resize_message @ decimal c"

subsection \<open>Constructor, resize, enqueue, dequeue, set\_producers\_done\<close>

definition CircularQueueMonitor :: "nat \<Rightarrow> string list \<Rightarrow> monitor" where
  "CircularQueueMonitor init_capacity log_file_ref =
     \<lparr>buffer = replicate init_capacity 0, capacity = init_capacity, front = 0, rear = 0,
      count = 0, producers_done = False, log_file = log_file_ref, notified = []\<rparr>"

text \<open>The copy loop of \<open>resize\<close>: \<open>for (i = 0; i < count; ++i) new_buffer[i] = buffer[(front + i) % capacity]\<close>.\<close>

function resize_copy :: "monitor \<Rightarrow> item list \<Rightarrow> nat \<Rightarrow> item list" where
  "resize_copy s new_buffer i =
     (if i < count s
      then resize_copy s (new_buffer[i := buffer s ! ((front s + i) mod capacity s)]) (i + 1)
      else new_buffer)"
  by pat_completeness auto
termination
  by (relation "measure (\<lambda>(s, new_buffer, i). count s - i)") auto

declare resize_copy.simps [simp del]

definition resize :: "nat \<Rightarrow> monitor \<Rightarrow> monitor" where
  "resize new_capacity s =
     (let new_buffer = resize_copy s (replicate new_capacity 0) 0;
          s1 = s\<lparr>buffer := new_buffer\<rparr>;
          s2 = s1\<lparr>capacity := new_capacity\<rparr>;
          s3 = s2\<lparr>front := 0\<rparr>;
          s4 = s3\<lparr>rear := count s3 mod capacity s3\<rparr>
      in s4\<lparr>log_file := log_file s4 @ [resize_line (capacity s4)]\<rparr>)"

definition enqueue :: "item \<Rightarrow> monitor \<Rightarrow> monitor call" where
  "enqueue item s =
     (if \<not> count s < capacity s then Suspends
      else
        let s1 = s\<lparr>buffer := (buffer s)[rear s := item]\<rparr>;
            s2 = s1\<lparr>rear := (rear s1 + 1) mod capacity s1\<rparr>;
            s3 = s2\<lparr>count := count s2 + 1\<rparr>;
            s4 = (if count s3 = capacity s3 then resize (capacity s3 * 2) s3 else s3)
        in Returns (s4\<lparr>notified := notified s4 @ [Notify_one_not_empty]\<rparr>))"

text \<open>
  \<open>dequeue\<close> returns \<open>false\<close> and leaves its reference argument alone (\<open>None\<close> here), or
  returns \<open>true\<close> with the item stored in the argument (\<open>Some item\<close>).
\<close>

definition dequeue :: "monitor \<Rightarrow> (item option \<times> monitor) call" where
  "dequeue s =
     (if count s = 0 \<and> \<not> producers_done s then Suspends
      else if count s = 0 \<and> producers_done s then Returns (None, s)
      else
        let item = buffer s ! front s;
            s1 = s\<lparr>front := (front s + 1) mod capacity s\<rparr>;
            s2 = s1\<lparr>count := count s1 - 1\<rparr>;
            s3 = (if capacity s2 > 1 \<and> count s2 \<le> capacity s2 div 4
                  then resize (capacity s2 div 2) s2 else s2)
        in Returns (Some item, s3\<lparr>notified := notified s3 @ [Notify_one_not_full]\<rparr>))"

definition set_producers_done :: "monitor \<Rightarrow> monitor" where
  "set_producers_done s =
     (let s1 = s\<lparr>producers_done := True\<rparr>
      in s1\<lparr>notified := notified s1 @ [Notify_all_not_empty]\<rparr>)"

subsection \<open>Sequences of calls\<close>

text \<open>
  The calls that the worker threads and \<open>main\<close> make on the monitor. Because the mutex
  serialises them, an execution of the program is a sequence of such calls, each one
  taken in a state where it does not suspend.
\<close>

datatype operation = Enqueue item | Dequeue | Set_producers_done

fun step :: "operation \<Rightarrow> monitor \<Rightarrow> (item option \<times> monitor) call" where
  "step (Enqueue x) s = (case enqueue x s of Suspends \<Rightarrow> Suspends | Returns s' \<Rightarrow> Returns (None, s'))"
| "step Dequeue s = dequeue s"
| "step Set_producers_done s = Returns (None, set_producers_done s)"

fun delivered :: "item option \<Rightarrow> item list" where
  "delivered None = []"
| "delivered (Some x) = [x]"

text \<open>\<open>run\<close> returns the items handed out by the successful dequeues, in order, and the final state.\<close>

fun run :: "operation list \<Rightarrow> monitor \<Rightarrow> (item list \<times> monitor) call" where
  "run [] s = Returns ([], s)"
| "run (op # ops) s =
     (case step op s of
        Suspends \<Rightarrow> Suspends
      | Returns (r, s') \<Rightarrow>
          (case run ops s' of
             Suspends \<Rightarrow> Suspends
           | Returns (outs, s'') \<Rightarrow> Returns (delivered r @ outs, s'')))"


subsection \<open>The consumer thread\<close>

text \<open>
  One iteration of the \<open>while (true)\<close> loop of \<open>consumer_function\<close>. The loop reads
  \<open>steady_clock::now()\<close> once in each iteration (after the 15 ms pause when an item was
  taken, right away otherwise); \<open>now\<close> is that reading, in the clock's nanoseconds.
  \<open>duration_cast<seconds>\<close> truncates towards zero. An iteration ends suspended inside
  \<open>dequeue\<close>, or goes round the loop again with the monitor and \<open>start_time\<close> it has
  then, or leaves the loop at one of its two \<open>break\<close>s: line 134 (the producers have
  finished) or line 142 (the maximum waiting time has passed).
\<close>

datatype consumer_step =
    Consumer_suspended
  | Consumer_continues monitor int
  | Consumer_break_done monitor
  | Consumer_break_timeout monitor

definition duration_cast_seconds :: "int \<Rightarrow> int" where
  "duration_cast_seconds ns =
     (if ns < 0 then - ((- ns) div 1000000000) else ns div 1000000000)"

definition consumer_iteration :: "monitor \<Rightarrow> int \<Rightarrow> int \<Rightarrow> int \<Rightarrow> consumer_step" where
  "consumer_iteration queue_monitor max_wait_time start_time now =
     (case dequeue queue_monitor of
        Suspends \<Rightarrow> Consumer_suspended
      | Returns (r, q) \<Rightarrow>
          (case r of
             Some item \<Rightarrow> Consumer_continues q now
           | None \<Rightarrow>
               if producers_done q then Consumer_break_done q
               else
                 let current_time = now;
                     elapsed_time = duration_cast_seconds (current_time - start_time)
                 in if elapsed_time \<ge> max_wait_time then Consumer_break_timeout q
                    else Consumer_continues q start_time))"

section \<open>What the claims speak about\<close>

text \<open>
  The logical content of the queue: the \<open>count\<close> slots read from \<open>front\<close> on, wrapping
  at \<open>capacity\<close>; this is also the order in which \<open>resize\<close> reads them.
\<close>

definition contents :: "monitor \<Rightarrow> item list" where
  "contents s = map (\<lambda>i. buffer s ! ((front s + i) mod capacity s)) [0..<count s]"

text \<open>The representation invariant, as the data model states it.\<close>

definition monitor_inv :: "monitor \<Rightarrow> bool" where
  "monitor_inv s =
     (0 \<le> count s \<and> count s \<le> capacity s \<and> 1 \<le> capacity s
      \<and> 0 \<le> front s \<and> front s < capacity s \<and> 0 \<le> rear s \<and> rear s < capacity s
      \<and> rear s = (front s + count s) mod capacity s)"

text \<open>
  The invariant the proofs carry: in addition, the vector has \<open>capacity\<close> slots, so that
  every index the code uses is in range, and the buffer is not full.
\<close>

definition well_formed :: "monitor \<Rightarrow> bool" where
  "well_formed s = (monitor_inv s \<and> length (buffer s) = capacity s \<and> count s < capacity s)"

text \<open>The state between the insertion and the growth check of \<open>enqueue\<close>.\<close>

definition pushed :: "item \<Rightarrow> monitor \<Rightarrow> monitor" where
  "pushed x s =
     s\<lparr>buffer := (buffer s)[rear s := x], rear := (rear s + 1) mod capacity s,
       count := count s + 1\<rparr>"

text \<open>The state between the removal and the shrink check of \<open>dequeue\<close>.\<close>

definition popped :: "monitor \<Rightarrow> monitor" where
  "popped s = s\<lparr>front := (front s + 1) mod capacity s, count := count s - 1\<rparr>"

text \<open>The items passed to \<open>enqueue\<close> by a sequence of calls, in order.\<close>

fun enqueued :: "operation list \<Rightarrow> item list" where
  "enqueued [] = []"
| "enqueued (Enqueue x # ops) = x # enqueued ops"
| "enqueued (Dequeue # ops) = enqueued ops"
| "enqueued (Set_producers_done # ops) = enqueued ops"

text \<open>
  The plain unbounded FIFO queue the monitor is compared with, written from the
  specification and not from the code: a list of items and the end-of-stream flag.
  Enqueueing appends and never waits; dequeueing takes the head, and on the empty list
  waits unless the flag is set, in which case it reports "no item".
\<close>

type_synonym fifo = "item list \<times> bool"

fun fifo_step :: "operation \<Rightarrow> fifo \<Rightarrow> (item option \<times> fifo) call" where
  "fifo_step (Enqueue x) (q, done) = Returns (None, (q @ [x], done))"
| "fifo_step Dequeue ([], done) = (if done then Returns (None, ([], done)) else Suspends)"
| "fifo_step Dequeue (x # q, done) = Returns (Some x, (q, done))"
| "fifo_step Set_producers_done (q, done) = Returns (None, (q, True))"

fun fifo_run :: "operation list \<Rightarrow> fifo \<Rightarrow> (item list \<times> fifo) call" where
  "fifo_run [] q = Returns ([], q)"
| "fifo_run (op # ops) q =
     (case fifo_step op q of
        Suspends \<Rightarrow> Suspends
      | Returns (r, q') \<Rightarrow>
          (case fifo_run ops q' of
             Suspends \<Rightarrow> Suspends
           | Returns (outs, q'') \<Rightarrow> Returns (delivered r @ outs, q'')))"

definition abstraction :: "monitor \<Rightarrow> fifo" where
  "abstraction s = (contents s, producers_done s)"

fun observe :: "('a \<times> monitor) call \<Rightarrow> ('a \<times> fifo) call" where
  "observe Suspends = Suspends"
| "observe (Returns (r, s)) = Returns (r, abstraction s)"

text \<open>
  The resize events of a sequence of calls, each named by the capacity it installs. A
  call resizes at most once, and a resize always changes the capacity (it doubles a
  capacity of at least 1 or halves one above 1), so the events are the changes of
  \<open>capacity\<close> from one call to the next.
\<close>

fun resize_events :: "operation list \<Rightarrow> monitor \<Rightarrow> nat list" where
  "resize_events [] s = []"
| "resize_events (op # ops) s =
     (case step op s of
        Suspends \<Rightarrow> []
      | Returns (r, s') \<Rightarrow>
          (if capacity s' = capacity s then [] else [capacity s']) @ resize_events ops s')"

text \<open>The log line in the words of the specification: \<open>Queue resized to <capacity>\<close>.\<close>

definition spec_resize_line :: "nat \<Rightarrow> string" where
  "spec_resize_line c = ''Queue resized to '' @ decimal c"

text \<open>
  Two states used as examples below. \<open>example_state\<close> is reached from
  \<open>CircularQueueMonitor 8\<close> by enqueueing 1 to 7, dequeueing four times, and then twice
  enqueueing (8, then 9) and dequeueing: the content 7, 8, 9 wraps around the end of
  the buffer. \<open>example_trace\<close> fills a monitor of capacity 2 and drains it again.
\<close>

definition example_state :: monitor where
  "example_state =
     \<lparr>buffer = [9, 2, 3, 4, 5, 6, 7, 8], capacity = 8, front = 6, rear = 1, count = 3,
      producers_done = False, log_file = [], notified = []\<rparr>"

definition example_trace :: "operation list" where
  "example_trace = [Enqueue 1, Enqueue 2, Enqueue 3, Dequeue, Dequeue]"

definition example_final :: monitor where
  "example_final =
     \<lparr>buffer = [3, 0], capacity = 2, front = 0, rear = 1, count = 1,
      producers_done = False, log_file = [resize_line 4, resize_line 2],
      notified = [Notify_one_not_empty, Notify_one_not_empty, Notify_one_not_empty,
                  Notify_one_not_full, Notify_one_not_full]\<rparr>"

section \<open>The copy loop, one call, a sequence of calls\<close>

lemma resize_copy_step:
  "i < count s \<Longrightarrow>
   resize_copy s nb i = resize_copy s (nb[i := buffer s ! ((front s + i) mod capacity s)]) (i + 1)"
  by (subst resize_copy.simps) simp

lemma resize_copy_stop: "\<not> i < count s \<Longrightarrow> resize_copy s nb i = nb"
  by (subst resize_copy.simps) simp

lemma length_resize_copy [simp]: "length (resize_copy s nb i) = length nb"
proof (induction s nb i rule: resize_copy.induct)
  case (1 s nb i)
  show ?case
  proof (cases "i < count s")
    case True
    then show ?thesis using "1.IH" by (simp add: resize_copy_step)
  next
    case False
    then show ?thesis by (simp add: resize_copy_stop)
  qed
qed

lemma nth_resize_copy:
  "k < length nb \<Longrightarrow>
   resize_copy s nb i ! k =
     (if i \<le> k \<and> k < count s then buffer s ! ((front s + k) mod capacity s) else nb ! k)"
proof (induction s nb i rule: resize_copy.induct)
  case (1 s nb i)
  show ?case
  proof (cases "i < count s")
    case True
    show ?thesis
    proof (cases "k = i")
      case True
      then show ?thesis using "1.IH" [OF \<open>i < count s\<close>] "1.prems" \<open>i < count s\<close>
        by (simp add: resize_copy_step)
    next
      case False
      then show ?thesis using "1.IH" [OF \<open>i < count s\<close>] "1.prems" \<open>i < count s\<close>
        by (auto simp: resize_copy_step)
    qed
  next
    case False
    then show ?thesis by (auto simp: resize_copy_stop)
  qed
qed

lemma resize_copy_contents:
  assumes "count s \<le> n"
  shows "resize_copy s (replicate n 0) 0 = contents s @ replicate (n - count s) 0"
  using assms by (intro nth_equalityI) (auto simp: nth_resize_copy contents_def nth_append)



lemma mod_shift_neq:
  fixes f :: nat
  assumes "j < c" "c < cap"
  shows "(f + j) mod cap \<noteq> (f + c) mod cap"
proof
  assume "(f + j) mod cap = (f + c) mod cap"
  then have "(f + c) mod cap = (f + j) mod cap" by simp
  moreover have "f + j \<le> f + c" using assms by simp
  ultimately have "cap dvd (f + c) - (f + j)" by (simp add: mod_eq_dvd_iff_nat)
  then have "cap dvd c - j" by simp
  moreover have "0 < c - j" "c - j < cap" using assms by simp_all
  ultimately show False by (meson nat_dvd_not_less)
qed

lemma resize_fields:
  "capacity (resize n s) = n" "front (resize n s) = 0" "rear (resize n s) = count s mod n"
  "count (resize n s) = count s" "producers_done (resize n s) = producers_done s"
  "log_file (resize n s) = log_file s @ [resize_line n]" "notified (resize n s) = notified s"
  "buffer (resize n s) = resize_copy s (replicate n 0) 0"
  by (simp_all add: resize_def Let_def)

lemma resize_buffer:
  "count s \<le> n \<Longrightarrow> buffer (resize n s) = contents s @ replicate (n - count s) 0"
  by (simp add: resize_fields resize_copy_contents)

lemma length_contents [simp]: "length (contents s) = count s"
  by (simp add: contents_def)

lemma contents_resize: "count s \<le> n \<Longrightarrow> contents (resize n s) = contents s"
  by (rule nth_equalityI) (simp_all add: contents_def resize_fields nth_resize_copy)

lemma enqueue_unfold:
  "count s < capacity s \<Longrightarrow>
   enqueue x s = Returns ((if count s + 1 = capacity s then resize (capacity s * 2) (pushed x s) else pushed x s)
      \<lparr>notified := notified s @ [Notify_one_not_empty]\<rparr>)"
  by (simp add: enqueue_def Let_def pushed_def resize_fields)

lemma contents_pushed:
  assumes "well_formed s"
  shows "contents (pushed x s) = contents s @ [x]"
proof (rule nth_equalityI)
  show "length (contents (pushed x s)) = length (contents s @ [x])"
    by (simp add: pushed_def)
next
  fix i assume "i < length (contents (pushed x s))"
  then have i: "i \<le> count s" by (simp add: pushed_def)
  have r: "rear s = (front s + count s) mod capacity s" "rear s < length (buffer s)"
    "count s < capacity s"
    using assms by (simp_all add: well_formed_def monitor_inv_def)
  show "contents (pushed x s) ! i = (contents s @ [x]) ! i"
  proof (cases "i = count s")
    case True
    then show ?thesis using r by (simp add: contents_def pushed_def nth_append)
  next
    case False
    then have "i < count s" using i by simp
    then have "(front s + i) mod capacity s \<noteq> rear s"
      using r mod_shift_neq [of i "count s" "capacity s" "front s"] by simp
    then show ?thesis using \<open>i < count s\<close>
      by (simp add: contents_def pushed_def nth_append)
  qed
qed

lemma dequeue_unfold:
  "0 < count s \<Longrightarrow>
   dequeue s = Returns (Some (buffer s ! front s),
     (if capacity s > 1 \<and> count s - 1 \<le> capacity s div 4 then resize (capacity s div 2) (popped s) else popped s)
      \<lparr>notified := notified s @ [Notify_one_not_full]\<rparr>)"
  by (simp add: dequeue_def Let_def popped_def resize_fields)

lemma contents_popped:
  "contents (popped s) = tl (contents s)"
proof (rule nth_equalityI)
  show "length (contents (popped s)) = length (tl (contents s))"
    by (simp add: popped_def)
next
  fix i assume "i < length (contents (popped s))"
  then have i: "Suc i < count s" by (simp add: popped_def)
  have "((front s + 1) mod capacity s + i) mod capacity s = (front s + Suc i) mod capacity s"
    by (simp add: mod_simps)
  moreover have "i < count s - 1" using i by simp
  ultimately show "contents (popped s) ! i = tl (contents s) ! i"
    using i by (simp add: contents_def popped_def nth_tl)
qed

lemma hd_contents:
  "0 < count s \<Longrightarrow> front s < capacity s \<Longrightarrow> hd (contents s) = buffer s ! front s"
  by (simp add: contents_def hd_map upt_conv_Cons)

lemma contents_notified [simp]: "contents (s\<lparr>notified := n\<rparr>) = contents s"
  by (simp add: contents_def)

lemma well_formed_notified [simp]: "well_formed (s\<lparr>notified := n\<rparr>) = well_formed s"
  by (simp add: well_formed_def monitor_inv_def)

lemma well_formed_enqueue_state:
  assumes "well_formed s"
  shows "well_formed (if count s + 1 = capacity s then resize (capacity s * 2) (pushed x s) else pushed x s)"
proof (cases "count s + 1 = capacity s")
  case True
  then show ?thesis using assms
    by (simp add: well_formed_def monitor_inv_def resize_fields pushed_def)
next
  case False
  have "(rear s + 1) mod capacity s = (front s + (count s + 1)) mod capacity s"
    using assms by (simp add: well_formed_def monitor_inv_def mod_simps)
  then show ?thesis using False assms
    by (simp add: well_formed_def monitor_inv_def pushed_def)
qed

lemma well_formed_dequeue_state:
  assumes "well_formed s" "0 < count s"
  shows "well_formed (if capacity s > 1 \<and> count s - 1 \<le> capacity s div 4 then resize (capacity s div 2) (popped s) else popped s)"
proof (cases "capacity s > 1 \<and> count s - 1 \<le> capacity s div 4")
  case True
  then have "1 < capacity s" "count s - 1 \<le> capacity s div 4" by simp_all
  then have "count s - 1 < capacity s div 2" "0 < capacity s div 2" by presburger+
  then show ?thesis using True assms
    by (simp add: well_formed_def monitor_inv_def resize_fields popped_def)
next
  case False
  obtain k where k: "count s = Suc k" using assms(2) by (cases "count s") simp_all
  have "(front s + Suc k) mod capacity s = ((front s + 1) mod capacity s + k) mod capacity s"
    by (simp add: mod_simps)
  then have "(front s + count s) mod capacity s = ((front s + 1) mod capacity s + (count s - 1)) mod capacity s"
    using k by simp
  moreover have "count s - 1 \<le> capacity s" "count s - 1 < capacity s"
    using assms by (auto simp: well_formed_def)
  ultimately show ?thesis using False assms
    by (simp add: well_formed_def monitor_inv_def popped_def)
qed



lemma well_formed_init: "0 < C \<Longrightarrow> well_formed (CircularQueueMonitor C lg)"
  by (simp add: well_formed_def monitor_inv_def CircularQueueMonitor_def)

lemma contents_init [simp]: "contents (CircularQueueMonitor C lg) = []"
  by (simp add: contents_def CircularQueueMonitor_def)

lemma enqueue_wf:
  assumes "well_formed s"
  shows "\<exists>s'. enqueue x s = Returns s' \<and> well_formed s' \<and> contents s' = contents s @ [x]
           \<and> producers_done s' = producers_done s
           \<and> capacity s' = (if count s + 1 = capacity s then capacity s * 2 else capacity s)"
proof -
  have lt: "count s < capacity s" using assms by (simp add: well_formed_def)
  have c: "count (pushed x s) \<le> capacity s * 2" using lt by (simp add: pushed_def)
  show ?thesis
    using well_formed_enqueue_state [OF assms, of x] contents_pushed [OF assms, of x] c
    by (simp add: enqueue_unfold [OF lt] contents_resize resize_fields) (simp add: pushed_def)
qed

lemma dequeue_wf:
  assumes "well_formed s" "0 < count s"
  shows "\<exists>s'. dequeue s = Returns (Some (hd (contents s)), s') \<and> well_formed s' \<and> contents s' = tl (contents s)
           \<and> producers_done s' = producers_done s
           \<and> capacity s' = (if capacity s > 1 \<and> count s - 1 \<le> capacity s div 4 then capacity s div 2 else capacity s)"
proof -
  have f: "front s < capacity s" using assms by (simp add: well_formed_def monitor_inv_def)
  have c: "capacity s > 1 \<and> count s - 1 \<le> capacity s div 4 \<Longrightarrow> count (popped s) \<le> capacity s div 2"
  proof -
    assume "capacity s > 1 \<and> count s - 1 \<le> capacity s div 4"
    then have "count s - 1 \<le> capacity s div 4" by simp
    then have "count s - 1 \<le> capacity s div 2" by presburger
    then show ?thesis by (simp add: popped_def)
  qed
  show ?thesis
    using well_formed_dequeue_state [OF assms] contents_popped [of s] c hd_contents [OF assms(2) f]
    by (simp add: dequeue_unfold [OF assms(2)] contents_resize resize_fields) (simp add: popped_def)
qed

lemma contents_Nil_iff: "contents s = [] \<longleftrightarrow> count s = 0"
  using length_contents [of s] by (metis length_0_conv)

lemma step_refines:
  assumes "well_formed s"
  shows "observe (step op s) = fifo_step op (abstraction s)
         \<and> (\<forall>r s'. step op s = Returns (r, s') \<longrightarrow> well_formed s')"
proof (cases op)
  case (Enqueue x)
  then show ?thesis using enqueue_wf [OF assms, of x]
    by (auto simp: abstraction_def)
next
  case Dequeue
  show ?thesis
  proof (cases "count s = 0")
    case True
    then have "contents s = []" by (simp add: contents_Nil_iff)
    then show ?thesis using True Dequeue assms
      by (auto simp: abstraction_def dequeue_def)
  next
    case False
    then obtain x q where xq: "contents s = x # q"
      by (cases "contents s") (simp_all add: contents_Nil_iff)
    then show ?thesis using dequeue_wf [OF assms] False Dequeue
      by (auto simp: abstraction_def)
  qed
next
  case Set_producers_done
  then show ?thesis using assms
    by (simp add: abstraction_def set_producers_done_def contents_def well_formed_def monitor_inv_def)
qed

lemma run_refines:
  "well_formed s \<Longrightarrow> observe (run ops s) = fifo_run ops (abstraction s)
     \<and> (\<forall>outs s'. run ops s = Returns (outs, s') \<longrightarrow> well_formed s')"
proof (induction ops arbitrary: s)
  case Nil
  then show ?case by simp
next
  case (Cons op ops)
  show ?case
  proof (cases "step op s")
    case Suspends
    then show ?thesis using step_refines [OF Cons.prems, of op] by simp
  next
    case (Returns p)
    obtain r s1 where p: "p = (r, s1)" by (cases p)
    have s1: "well_formed s1" and f: "fifo_step op (abstraction s) = Returns (r, abstraction s1)"
      using step_refines [OF Cons.prems, of op] Returns p by auto
    show ?thesis using Cons.IH [OF s1] Returns p f
      by (cases "run ops s1") (auto split: call.splits)
  qed
qed

lemma fifo_run_conserves:
  "fifo_run ops (q, d) = Returns (outs, (q', d')) \<Longrightarrow> q @ enqueued ops = outs @ q'"
proof (induction ops arbitrary: q d outs)
  case Nil
  then show ?case by simp
next
  case (Cons op ops)
  show ?case
  proof (cases op)
    case (Enqueue x)
    then show ?thesis using Cons.prems Cons.IH [of "q @ [x]" d]
      by (auto split: call.splits)
  next
    case Dequeue
    then show ?thesis using Cons.prems
      by (cases q) (auto split: call.splits if_splits dest!: Cons.IH)
  next
    case Set_producers_done
    then show ?thesis using Cons.prems Cons.IH [of q True]
      by (auto split: call.splits)
  qed
qed

lemma abstraction_init: "abstraction (CircularQueueMonitor C lg) = ([], False)"
  by (simp add: abstraction_def) (simp add: CircularQueueMonitor_def)

subsection \<open>Runs of enqueues, and draining\<close>

lemma run_enqueues_below:
  "well_formed s \<Longrightarrow> count s + length xs < capacity s \<Longrightarrow>
   \<exists>s'. run (map Enqueue xs) s = Returns ([], s') \<and> well_formed s'
        \<and> capacity s' = capacity s \<and> contents s' = contents s @ xs"
proof (induction xs arbitrary: s)
  case Nil
  then show ?case by simp
next
  case (Cons x xs)
  obtain s1 where s1: "enqueue x s = Returns s1" "well_formed s1"
      "contents s1 = contents s @ [x]" "capacity s1 = capacity s"
    using enqueue_wf [OF Cons.prems(1), of x] Cons.prems(2) by auto
  have "count s1 = count s + 1" using s1(3) length_contents [of s1] by simp
  then have "count s1 + length xs < capacity s1" using Cons.prems(2) s1(4) by simp
  from Cons.IH [OF s1(2) this] s1 show ?case by auto
qed

lemma run_enqueues_fill:
  "well_formed s \<Longrightarrow> count s + length xs = capacity s \<Longrightarrow>
   \<exists>s'. run (map Enqueue xs) s = Returns ([], s') \<and> well_formed s'
        \<and> capacity s' = 2 * capacity s \<and> contents s' = contents s @ xs"
proof (induction xs arbitrary: s)
  case Nil
  then show ?case by (simp add: well_formed_def)
next
  case (Cons x xs)
  show ?case
  proof (cases xs)
    case Nil
    then show ?thesis using enqueue_wf [OF Cons.prems(1), of x] Cons.prems(2) by auto
  next
    case (Cons y ys)
    then have lt: "count s + 1 < capacity s" using Cons.prems(2) by simp
    obtain s1 where s1: "enqueue x s = Returns s1" "well_formed s1"
        "contents s1 = contents s @ [x]" "capacity s1 = capacity s"
      using enqueue_wf [OF Cons.prems(1), of x] lt by auto
    have "count s1 = count s + 1" using s1(3) length_contents [of s1] by simp
    then have "count s1 + length xs = capacity s1" using Cons.prems(2) s1(4) by simp
    from Cons.IH [OF s1(2) this] s1 show ?thesis by auto
  qed
qed

lemma run_drain:
  "well_formed s \<Longrightarrow> count s = n \<Longrightarrow>
   \<exists>s'. run (replicate n Dequeue) s = Returns (contents s, s') \<and> count s' = 0"
proof (induction n arbitrary: s)
  case 0
  then have "contents s = []" "count s = 0" by (simp_all add: contents_Nil_iff)
  then show ?case by simp
next
  case (Suc n)
  then have pos: "0 < count s" by simp
  obtain s1 where s1: "dequeue s = Returns (Some (hd (contents s)), s1)" "well_formed s1"
      "contents s1 = tl (contents s)"
    using dequeue_wf [OF Suc.prems(1) pos] by auto
  have "count s1 = n" using s1(3) length_contents [of s1] length_contents [of s] Suc.prems(2) by simp
  from Suc.IH [OF s1(2) this] obtain s' where
    s': "run (replicate n Dequeue) s1 = Returns (contents s1, s')" "count s' = 0" by auto
  have "contents s \<noteq> []" using pos by (simp add: contents_Nil_iff)
  then have "hd (contents s) # tl (contents s) = contents s" by simp
  then show ?case using s1 s' by simp
qed

subsection \<open>The log grows by one line for each change of capacity\<close>

lemma enqueue_log:
  assumes "enqueue x s = Returns s'"
  shows "log_file s' = log_file s @ map resize_line (if capacity s' = capacity s then [] else [capacity s'])"
proof -
  have lt: "count s < capacity s" using assms by (simp add: enqueue_def split: if_splits)
  show ?thesis
  proof (cases "count s + 1 = capacity s")
    case True
    then have "s' = (resize (capacity s * 2) (pushed x s))\<lparr>notified := notified s @ [Notify_one_not_empty]\<rparr>"
      using assms by (simp add: enqueue_unfold [OF lt])
    then show ?thesis using lt by (simp add: resize_fields pushed_def)
  next
    case False
    then have "s' = (pushed x s)\<lparr>notified := notified s @ [Notify_one_not_empty]\<rparr>"
      using assms by (simp add: enqueue_unfold [OF lt])
    then show ?thesis by (simp add: pushed_def)
  qed
qed

lemma dequeue_log:
  assumes "dequeue s = Returns (r, s')"
  shows "log_file s' = log_file s @ map resize_line (if capacity s' = capacity s then [] else [capacity s'])"
proof (cases "count s = 0")
  case True
  then have "s' = s" using assms by (simp add: dequeue_def split: if_splits)
  then show ?thesis by simp
next
  case False
  then have pos: "0 < count s" by simp
  show ?thesis
  proof (cases "capacity s > 1 \<and> count s - 1 \<le> capacity s div 4")
    case True
    then have "s' = (resize (capacity s div 2) (popped s))\<lparr>notified := notified s @ [Notify_one_not_full]\<rparr>"
      using assms by (auto simp: dequeue_unfold [OF pos])
    moreover have "capacity s div 2 \<noteq> capacity s" using True by presburger
    ultimately show ?thesis by (simp add: resize_fields popped_def)
  next
    case False
    then have "s' = (popped s)\<lparr>notified := notified s @ [Notify_one_not_full]\<rparr>"
      using assms by (auto simp: dequeue_unfold [OF pos])
    then show ?thesis by (simp add: popped_def)
  qed
qed

lemma step_log:
  assumes "step op s = Returns (r, s')"
  shows "log_file s' = log_file s @ map resize_line (if capacity s' = capacity s then [] else [capacity s'])"
proof (cases op)
  case (Enqueue x)
  then have "enqueue x s = Returns s'" using assms by (simp split: call.splits)
  then show ?thesis by (rule enqueue_log)
next
  case Dequeue
  then have "dequeue s = Returns (r, s')" using assms by simp
  then show ?thesis by (rule dequeue_log)
next
  case Set_producers_done
  then have "s' = set_producers_done s" using assms by simp
  then show ?thesis by (simp add: set_producers_done_def)
qed

lemma run_log:
  "run ops s = Returns (outs, s') \<Longrightarrow> log_file s' = log_file s @ map resize_line (resize_events ops s)"
proof (induction ops arbitrary: s outs)
  case Nil
  then show ?case by simp
next
  case (Cons op ops)
  then obtain r s1 outs1 where s1: "step op s = Returns (r, s1)" "run ops s1 = Returns (outs1, s')"
    by (auto split: call.splits)
  show ?case using step_log [OF s1(1)] Cons.IH [OF s1(2)] s1(1) by simp
qed

subsection \<open>What the consumer can see\<close>

text \<open>
  \<open>dequeue\<close> reports "no item" only when \<open>producers_done\<close> is set, and no call resets
  the flag: the unlocked read of \<open>producers_done\<close> at line 133 of simulapc.cpp, which
  follows such a result, always yields \<open>true\<close>, whatever other threads did in between.
\<close>

lemma dequeue_none_done: "dequeue s = Returns (None, s') \<Longrightarrow> producers_done s'"
  by (auto simp: dequeue_def Let_def split: if_splits)

lemma consumer_never_times_out:
  "consumer_iteration q max_wait_time start_time now \<noteq> Consumer_break_timeout q'"
  using dequeue_none_done [of q]
  by (auto simp: consumer_iteration_def Let_def split: call.splits option.splits)

lemma step_producers_done: "step op s = Returns (r, s') \<Longrightarrow> producers_done s \<Longrightarrow> producers_done s'"
  by (cases op)
    (auto simp: enqueue_def dequeue_def set_producers_done_def resize_def Let_def split: if_splits)

subsection \<open>The example states, evaluated\<close>

lemma replicate_numeral_eq: "replicate (numeral k) x = x # replicate (pred_numeral k) x"
  by (simp add: numeral_eq_Suc)

lemmas eval_defs = enqueue_def dequeue_def resize_def CircularQueueMonitor_def
  set_producers_done_def resize_copy.simps Let_def

lemma example_run:
  "run example_trace (CircularQueueMonitor 2 []) = Returns ([1, 2], example_final)"
  by (simp add: example_trace_def example_final_def eval_defs replicate_numeral_eq)

lemma contents_example_state: "contents example_state = [7, 8, 9]"
  by (simp add: contents_def example_state_def upt_conv_Cons)

lemma contents_example_final: "contents example_final = [3]"
  by (simp add: contents_def example_final_def)

section \<open>The representation invariant\<close>

text \<open>
  C1. Start from a monitor constructed with a positive capacity and let any sequence of
  calls complete. In the state reached, \<open>0 \<le> count \<le> capacity\<close>, \<open>capacity \<ge> 1\<close>,
  \<open>front\<close> and \<open>rear\<close> lie in \<open>[0, capacity)\<close> and \<open>rear = (front + count) mod capacity\<close>.
  The same holds right after either internal resize that can come next: the doubling
  that \<open>enqueue\<close> performs when its insertion fills the buffer, and the halving that
  \<open>dequeue\<close> performs when its removal leaves at most a quarter in use.
\<close>

theorem monitor_invariant:
  assumes "0 < C" "run ops (CircularQueueMonitor C lg) = Returns (outs, s)"
  shows "monitor_inv s
         \<and> (\<forall>x. count s + 1 = capacity s \<longrightarrow>
               monitor_inv (resize (capacity s * 2) (pushed x s)))
         \<and> (0 < count s \<and> 1 < capacity s \<and> count s - 1 \<le> capacity s div 4 \<longrightarrow>
               monitor_inv (resize (capacity s div 2) (popped s)))"
proof -
  have wf: "well_formed s"
    using run_refines [OF well_formed_init [OF assms(1)], of ops lg] assms(2) by simp
  have a: "monitor_inv (resize (capacity s * 2) (pushed x s))" if "count s + 1 = capacity s" for x
    using well_formed_enqueue_state [OF wf, of x] that by (simp add: well_formed_def)
  have b: "monitor_inv (resize (capacity s div 2) (popped s))"
    if "0 < count s \<and> 1 < capacity s \<and> count s - 1 \<le> capacity s div 4"
    using well_formed_dequeue_state [OF wf] that by (simp add: well_formed_def)
  show ?thesis using wf a b by (simp add: well_formed_def)
qed

theorem monitor_invariant_witness:
  "(0::nat) < 2 \<and> run example_trace (CircularQueueMonitor 2 []) = Returns ([1, 2], example_final)
   \<and> monitor_inv example_final
   \<and> count example_final + 1 = capacity example_final
   \<and> monitor_inv (resize (capacity example_final * 2) (pushed 5 example_final))
   \<and> 0 < count example_final \<and> 1 < capacity example_final
   \<and> count example_final - 1 \<le> capacity example_final div 4
   \<and> monitor_inv (resize (capacity example_final div 2) (popped example_final))"
proof -
  have h: "(0::nat) < 2" by simp
  have c: "count example_final = 1" "capacity example_final = 2"
    by (simp_all add: example_final_def)
  note t = monitor_invariant [OF h example_run]
  from t have "monitor_inv example_final" by (rule conjunct1)
  moreover from t c have "monitor_inv (resize (capacity example_final * 2) (pushed 5 example_final))"
    by simp
  moreover from t c have "monitor_inv (resize (capacity example_final div 2) (popped example_final))"
    by simp
  ultimately show ?thesis using example_run c by simp
qed

section \<open>Exactly-once FIFO delivery\<close>

text \<open>
  C2. From an empty monitor of positive capacity, any sequence of calls behaves as it
  does on the plain unbounded FIFO queue: it suspends on the one exactly when it suspends
  on the other, the dequeues hand out the same items, and the content left and the
  end-of-stream flag agree. Hence the items handed out, followed by the items still
  stored, are exactly the items enqueued, in order: what was handed out is a prefix of
  what was enqueued, nothing is lost and nothing is delivered twice.
\<close>

theorem fifo_refinement:
  assumes "0 < C"
  shows "observe (run ops (CircularQueueMonitor C lg)) = fifo_run ops ([], False)
         \<and> (\<forall>outs s. run ops (CircularQueueMonitor C lg) = Returns (outs, s) \<longrightarrow>
               enqueued ops = outs @ contents s \<and> take (length outs) (enqueued ops) = outs)"
proof -
  have r: "observe (run ops (CircularQueueMonitor C lg)) = fifo_run ops ([], False)"
    using run_refines [OF well_formed_init [OF assms], of ops lg] by (simp add: abstraction_init)
  have "enqueued ops = outs @ contents s"
    if "run ops (CircularQueueMonitor C lg) = Returns (outs, s)" for outs s
    using r that fifo_run_conserves [of ops "[]" False outs "contents s" "producers_done s"]
    by (simp add: abstraction_def)
  then show ?thesis using r by auto
qed

theorem fifo_refinement_witness:
  "(0::nat) < 2
   \<and> observe (run example_trace (CircularQueueMonitor 2 [])) = fifo_run example_trace ([], False)
   \<and> run example_trace (CircularQueueMonitor 2 []) = Returns ([1, 2], example_final)
   \<and> enqueued example_trace = [1, 2] @ contents example_final
   \<and> take (length [1, 2 :: item]) (enqueued example_trace) = [1, 2]"
proof -
  have h: "(0::nat) < 2" by simp
  note t = fifo_refinement [OF h, of example_trace "[]"]
  from t have a: "observe (run example_trace (CircularQueueMonitor 2 [])) = fifo_run example_trace ([], False)"
    by (rule conjunct1)
  from t example_run have b: "enqueued example_trace = [1, 2] @ contents example_final
      \<and> take (length [1, 2 :: item]) (enqueued example_trace) = [1, 2]"
    by blast
  from h a example_run b show ?thesis by blast
qed

section \<open>Growth\<close>

text \<open>
  C3. For every positive capacity \<open>C\<close>, enqueueing \<open>C\<close> items into the empty monitor of
  capacity \<open>C\<close> completes and leaves the capacity at \<open>2 * C\<close>, and a dequeue then returns
  the first item enqueued. After any smaller number of those enqueues the capacity is
  still \<open>C\<close>: the doubling happens at the insertion that fills the buffer, not before.
\<close>

theorem growth_trigger:
  assumes "0 < C" "length xs = C"
  shows "(\<exists>s. run (map Enqueue xs) (CircularQueueMonitor C lg) = Returns ([], s)
            \<and> capacity s = 2 * C \<and> (\<exists>s'. dequeue s = Returns (Some (hd xs), s')))
         \<and> (\<forall>k<C. \<exists>s. run (map Enqueue (take k xs)) (CircularQueueMonitor C lg) = Returns ([], s)
               \<and> capacity s = C)"
proof -
  let ?m = "CircularQueueMonitor C lg"
  have wf: "well_formed ?m" using assms(1) by (rule well_formed_init)
  have cm: "count ?m = 0" "capacity ?m = C" by (simp_all add: CircularQueueMonitor_def)
  obtain s where s: "run (map Enqueue xs) ?m = Returns ([], s)" "well_formed s"
      "capacity s = 2 * C" "contents s = xs"
    using run_enqueues_fill [OF wf, of xs] assms(2) cm by auto
  have "0 < count s" using s(4) length_contents [of s] assms by simp
  from dequeue_wf [OF s(2) this] s(4)
  have "\<exists>s'. dequeue s = Returns (Some (hd xs), s')" by auto
  then have a: "\<exists>s. run (map Enqueue xs) ?m = Returns ([], s)
            \<and> capacity s = 2 * C \<and> (\<exists>s'. dequeue s = Returns (Some (hd xs), s'))"
    using s by blast
  have b: "\<exists>s. run (map Enqueue (take k xs)) ?m = Returns ([], s) \<and> capacity s = C" if "k < C" for k
    using run_enqueues_below [OF wf, of "take k xs"] that assms(2) cm by auto
  show ?thesis using a b by blast
qed

theorem growth_trigger_witness:
  "(0::nat) < 3 \<and> length [10, 20, 30 :: item] = 3
   \<and> (\<exists>s. run (map Enqueue [10, 20, 30]) (CircularQueueMonitor 3 []) = Returns ([], s)
          \<and> capacity s = 6 \<and> (\<exists>s'. dequeue s = Returns (Some 10, s')))
   \<and> (\<exists>s. run (map Enqueue [10, 20]) (CircularQueueMonitor 3 []) = Returns ([], s) \<and> capacity s = 3)"
proof -
  have h: "(0::nat) < 3" "length [10, 20, 30 :: item] = 3" by simp_all
  have a: "\<forall>k<3. \<exists>s. run (map Enqueue (take k [10, 20, 30])) (CircularQueueMonitor 3 []) = Returns ([], s)
               \<and> capacity s = 3"
    using growth_trigger [OF h, of "[]"] by blast
  have "\<exists>s. run (map Enqueue [10, 20]) (CircularQueueMonitor 3 []) = Returns ([], s) \<and> capacity s = 3"
    using a [rule_format, of 2] by simp
  then show ?thesis using growth_trigger [OF h, of "[]"] by simp
qed

section \<open>Shrinking\<close>

text \<open>
  C4. Take a state that satisfies the representation invariant, whose buffer has
  \<open>capacity\<close> slots, with capacity \<open>C > 1\<close>, holding at least one item, and such that
  one dequeue brings the count to at most \<open>C div 4\<close>. That dequeue returns the oldest
  item and leaves the capacity at \<open>C div 2\<close>; the content is the old one without its
  head, and dequeueing as many times as there are items left returns them in that order.
\<close>

theorem shrink_trigger:
  assumes "monitor_inv s" "length (buffer s) = capacity s"
    and "1 < capacity s" "0 < count s" "count s - 1 \<le> capacity s div 4"
  shows "\<exists>s'. dequeue s = Returns (Some (hd (contents s)), s')
           \<and> capacity s' = capacity s div 2
           \<and> contents s' = tl (contents s)
           \<and> (\<exists>s''. run (replicate (count s') Dequeue) s' = Returns (tl (contents s), s''))"
proof -
  have "4 * (capacity s div 4) \<le> capacity s" by simp
  then have "count s < capacity s" using assms(3,4,5) by linarith
  then have wf: "well_formed s" using assms(1,2) by (simp add: well_formed_def)
  obtain s1 where s1: "dequeue s = Returns (Some (hd (contents s)), s1)" "well_formed s1"
      "contents s1 = tl (contents s)" "capacity s1 = capacity s div 2"
    using dequeue_wf [OF wf assms(4)] assms(3,5) by auto
  from run_drain [OF s1(2) refl] s1 show ?thesis by auto
qed

theorem shrink_trigger_witness:
  "monitor_inv example_state \<and> length (buffer example_state) = capacity example_state
   \<and> 1 < capacity example_state \<and> 0 < count example_state
   \<and> count example_state - 1 \<le> capacity example_state div 4
   \<and> (\<exists>s'. dequeue example_state = Returns (Some 7, s') \<and> capacity s' = 4 \<and> contents s' = [8, 9]
          \<and> (\<exists>s''. run (replicate (count s') Dequeue) s' = Returns ([8, 9], s'')))"
proof -
  have h: "monitor_inv example_state" "length (buffer example_state) = capacity example_state"
    "1 < capacity example_state" "0 < count example_state"
    "count example_state - 1 \<le> capacity example_state div 4"
    by (simp_all add: monitor_inv_def example_state_def)
  have c: "capacity example_state = 8" by (simp add: example_state_def)
  show ?thesis using h shrink_trigger [OF h] by (simp add: contents_example_state c)
qed

section \<open>End of stream\<close>

text \<open>
  C5. When \<open>count = 0\<close> and \<open>producers_done\<close> is set, \<open>dequeue\<close> does not suspend: it
  returns the "no item" result, and nothing has been removed: the state it returns has
  the same element count and the same content as before.
\<close>

theorem dequeue_end_of_stream:
  "count s = 0 \<and> producers_done s \<Longrightarrow>
     (\<exists>s'. dequeue s = Returns (None, s') \<and> count s' = count s \<and> contents s' = contents s)"
  by (simp add: dequeue_def)

theorem dequeue_end_of_stream_witness:
  "count (set_producers_done (CircularQueueMonitor 4 [])) = 0
   \<and> producers_done (set_producers_done (CircularQueueMonitor 4 []))
   \<and> (\<exists>s'. dequeue (set_producers_done (CircularQueueMonitor 4 [])) = Returns (None, s')
        \<and> count s' = count (set_producers_done (CircularQueueMonitor 4 []))
        \<and> contents s' = contents (set_producers_done (CircularQueueMonitor 4 [])))"
proof -
  have h: "count (set_producers_done (CircularQueueMonitor 4 [])) = 0
           \<and> producers_done (set_producers_done (CircularQueueMonitor 4 []))"
    by (simp add: set_producers_done_def CircularQueueMonitor_def)
  show ?thesis using h dequeue_end_of_stream [OF h] by simp
qed

section \<open>The consumer and its idle timeout\<close>

text \<open>
  C6. The claim has the consumer leave through its idle timeout when \<open>dequeue\<close> comes
  back empty while \<open>producers_done\<close> is false. In the code that situation does not
  arise. On an empty queue with \<open>producers_done\<close> false the consumer is suspended inside
  \<open>dequeue\<close>, however much time has passed: here a monitor of capacity 4 just
  constructed, a maximum wait of 1 second, and a clock reading 5 seconds after
  \<open>start_time\<close>. And no iteration of the consumer's loop, in any state and at any time,
  leaves through the timeout \<open>break\<close> of line 142.
\<close>

theorem consumer_idle_suspends:
  "consumer_iteration (CircularQueueMonitor 4 []) 1 0 5000000000 = Consumer_suspended
   \<and> (\<forall>q max_wait_time start_time now q'.
         consumer_iteration q max_wait_time start_time now \<noteq> Consumer_break_timeout q')"
  using consumer_never_times_out
  by (simp add: consumer_iteration_def dequeue_def CircularQueueMonitor_def)

section \<open>The log\<close>

text \<open>
  C7, as stated, fails on the text of the line. The first enqueue into a monitor of
  capacity 1 fills it and resizes to 2; the line this appends is the one of the source,
  \<open>La cola cambi\<dots> de tama\<dots>o a 2\<close>, and not \<open>Queue resized to 2\<close>.
\<close>

theorem resize_log_line_counterexample:
  "enqueue 7 (CircularQueueMonitor 1 []) =
     Returns \<lparr>buffer = [7, 0], capacity = 2, front = 0, rear = 1, count = 1,
              producers_done = False, log_file = [resize_line 2],
              notified = [Notify_one_not_empty]\<rparr>
   \<and> resize_line 2 \<noteq> spec_resize_line 2"
  by (simp add: eval_defs replicate_numeral_eq resize_line_def spec_resize_line_def resize_message_def)

text \<open>
  C7, amended. Every resize appends exactly one line, the message of line 43 of
  simulapc.cpp followed by the new capacity in decimal. Over a sequence of calls that
  completes, the lines appended are those of its resize events, in the order in which
  the events happened.
\<close>

theorem resize_log_line:
  "log_file (resize n s) = log_file s @ [resize_line n]
   \<and> (run ops s = Returns (outs, s') \<longrightarrow>
        log_file s' = log_file s @ map resize_line (resize_events ops s))"
  using run_log [of ops s outs s'] by (simp add: resize_fields)

theorem resize_log_line_witness:
  "log_file (resize 4 (CircularQueueMonitor 2 [])) = log_file (CircularQueueMonitor 2 []) @ [resize_line 4]
   \<and> run example_trace (CircularQueueMonitor 2 []) = Returns ([1, 2], example_final)
   \<and> log_file example_final = log_file (CircularQueueMonitor 2 []) @ map resize_line [4, 2]
   \<and> resize_events example_trace (CircularQueueMonitor 2 []) = [4, 2]"
proof -
  have e: "resize_events example_trace (CircularQueueMonitor 2 []) = [4, 2]"
    by (simp add: example_trace_def eval_defs replicate_numeral_eq)
  show ?thesis
    using resize_log_line [of 4 "CircularQueueMonitor 2 []" example_trace "[1, 2]" example_final]
      example_run e by simp
qed

section \<open>Policy asymmetry\<close>

text \<open>
  C8. In a state that satisfies the representation invariant, an enqueue that returns
  leaves the capacity as it was or doubles it, a dequeue that returns leaves it as it
  was or halves it, and in both cases the capacity stays at least 1.
\<close>

theorem policy_asymmetry:
  "monitor_inv s \<Longrightarrow>
     (\<forall>x s'. enqueue x s = Returns s' \<longrightarrow>
        capacity s \<le> capacity s' \<and> (capacity s' = capacity s \<or> capacity s' = 2 * capacity s)
        \<and> 1 \<le> capacity s')
     \<and> (\<forall>r s'. dequeue s = Returns (r, s') \<longrightarrow>
        capacity s' \<le> capacity s \<and> (capacity s' = capacity s \<or> capacity s' = capacity s div 2)
        \<and> 1 \<le> capacity s')"
proof -
  assume inv: "monitor_inv s"
  then have c: "1 \<le> capacity s" by (simp add: monitor_inv_def)
  have e: "capacity s \<le> capacity s' \<and> (capacity s' = capacity s \<or> capacity s' = 2 * capacity s)
        \<and> 1 \<le> capacity s'" if "enqueue x s = Returns s'" for x s'
  proof -
    have lt: "count s < capacity s" using that by (auto simp: enqueue_def split: if_splits)
    show ?thesis using that c by (auto simp: enqueue_unfold [OF lt] resize_fields pushed_def)
  qed
  have d: "capacity s' \<le> capacity s \<and> (capacity s' = capacity s \<or> capacity s' = capacity s div 2)
        \<and> 1 \<le> capacity s'" if "dequeue s = Returns (r, s')" for r s'
  proof (cases "count s = 0")
    case True
    then show ?thesis using that c by (auto simp: dequeue_def split: if_splits)
  next
    case False
    then have pos: "0 < count s" by simp
    have "1 < capacity s \<Longrightarrow> 1 \<le> capacity s div 2" by presburger
    then show ?thesis using that c by (auto simp: dequeue_unfold [OF pos] resize_fields popped_def)
  qed
  show ?thesis using e d by blast
qed

theorem policy_asymmetry_witness:
  "monitor_inv example_state
   \<and> (\<exists>s'. enqueue 10 example_state = Returns s' \<and> capacity example_state \<le> capacity s'
          \<and> 1 \<le> capacity s')
   \<and> (\<exists>r s'. dequeue example_state = Returns (r, s') \<and> capacity s' \<le> capacity example_state
          \<and> 1 \<le> capacity s')"
proof -
  have h: "monitor_inv example_state" by (simp add: monitor_inv_def example_state_def)
  obtain s1 where s1: "enqueue 10 example_state = Returns s1"
    by (simp add: enqueue_def example_state_def Let_def)
  obtain s2 where s2: "dequeue example_state = Returns (Some 7, s2)"
    by (simp add: dequeue_def example_state_def Let_def)
  show ?thesis using h policy_asymmetry [OF h] s1 s2 by auto
qed

section \<open>The buffer is never left full\<close>

text \<open>
  C9. After any sequence of calls that completes from an empty monitor of positive
  capacity, \<open>count < capacity\<close> holds strictly, so the wait condition of \<open>enqueue\<close> is
  true on entry: the next \<open>enqueue\<close>, whatever its item, does not suspend.
\<close>

theorem never_full:
  "0 < C \<Longrightarrow> run ops (CircularQueueMonitor C lg) = Returns (outs, s) \<Longrightarrow>
     count s < capacity s \<and> (\<forall>x. enqueue x s \<noteq> Suspends)"
  using run_refines [OF well_formed_init, of C ops lg]
  by (simp add: well_formed_def enqueue_def Let_def)

theorem never_full_witness:
  "(0::nat) < 2 \<and> run example_trace (CircularQueueMonitor 2 []) = Returns ([1, 2], example_final)
   \<and> count example_final < capacity example_final \<and> (\<forall>x. enqueue x example_final \<noteq> Suspends)"
  using never_full [OF _ example_run] example_run by simp

section \<open>End of stream leaves the monitor alone\<close>

text \<open>
  C10. On the end-of-stream path (\<open>count = 0\<close> and \<open>producers_done\<close> set) \<open>dequeue\<close>
  returns "no item" and every field keeps its value: buffer, capacity, front, rear,
  count and producers_done; the log has no new line, so no resize took place; and no
  notification was sent.
\<close>

theorem dequeue_end_of_stream_unchanged:
  "count s = 0 \<and> producers_done s \<Longrightarrow>
     (\<exists>s'. dequeue s = Returns (None, s') \<and> buffer s' = buffer s \<and> capacity s' = capacity s
        \<and> front s' = front s \<and> rear s' = rear s \<and> count s' = count s
        \<and> producers_done s' = producers_done s \<and> log_file s' = log_file s
        \<and> notified s' = notified s)"
  by (simp add: dequeue_def)

theorem dequeue_end_of_stream_unchanged_witness:
  "count (set_producers_done (CircularQueueMonitor 1 [])) = 0
   \<and> producers_done (set_producers_done (CircularQueueMonitor 1 []))
   \<and> dequeue (set_producers_done (CircularQueueMonitor 1 [])) =
       Returns (None, set_producers_done (CircularQueueMonitor 1 []))
   \<and> notified (set_producers_done (CircularQueueMonitor 1 [])) = [Notify_all_not_empty]"
proof -
  have h: "count (set_producers_done (CircularQueueMonitor 1 [])) = 0
           \<and> producers_done (set_producers_done (CircularQueueMonitor 1 []))"
    by (simp add: set_producers_done_def CircularQueueMonitor_def)
  from dequeue_end_of_stream_unchanged [OF h] obtain s' where
    "dequeue (set_producers_done (CircularQueueMonitor 1 [])) = Returns (None, s')"
    "buffer s' = buffer (set_producers_done (CircularQueueMonitor 1 []))"
    "capacity s' = capacity (set_producers_done (CircularQueueMonitor 1 []))"
    "front s' = front (set_producers_done (CircularQueueMonitor 1 []))"
    "rear s' = rear (set_producers_done (CircularQueueMonitor 1 []))"
    "count s' = count (set_producers_done (CircularQueueMonitor 1 []))"
    "producers_done s' = producers_done (set_producers_done (CircularQueueMonitor 1 []))"
    "log_file s' = log_file (set_producers_done (CircularQueueMonitor 1 []))"
    "notified s' = notified (set_producers_done (CircularQueueMonitor 1 []))"
    by blast
  then have "dequeue (set_producers_done (CircularQueueMonitor 1 [])) =
       Returns (None, set_producers_done (CircularQueueMonitor 1 []))"
    by simp
  then show ?thesis using h by (simp add: set_producers_done_def CircularQueueMonitor_def)
qed

end
